theory Spec2Isabelle
  imports Complex_Main "HOL-Library.Sublist"
begin

section \<open>Python strings\<close>

text \<open>
  A Python \<open>str\<close> is a sequence of Unicode code points; \<open>len\<close> counts code points and
  \<open>set(s)\<close> is the set of code points of \<open>s\<close>.  A code point is modelled by its number,
  so that the Arabic comma (U+060C) and the Arabic semicolon (U+061B) of the source are
  single characters, as they are in Python.
\<close>

type_synonym pychar = nat
type_synonym pystr = "pychar list"

definition str :: "string \<Rightarrow> pystr" where
  "str s = map of_char s"

text \<open>
  \<open>str.isspace\<close> on one character.  \<open>str.strip()\<close>, \<open>str.split()\<close> and the class
  \<open>\s\<close> of \<open>re\<close> on a \<open>str\<close> pattern all use this set of code points.
\<close>

definition isspace :: "pychar \<Rightarrow> bool" where
  "isspace c = ((9 \<le> c \<and> c \<le> 13) \<or> (28 \<le> c \<and> c \<le> 32) \<or> c = 133 \<or> c = 160
     \<or> c = 5760 \<or> (8192 \<le> c \<and> c \<le> 8202) \<or> c = 8232 \<or> c = 8233 \<or> c = 8239
     \<or> c = 8287 \<or> c = 12288)"

definition lstrip :: "pystr \<Rightarrow> pystr" where
  "lstrip s = dropWhile isspace s"

text \<open>\<open>s.rstrip()\<close>: a character is dropped when it is whitespace and nothing is
  left of what follows it.\<close>

fun rstrip :: "pystr \<Rightarrow> pystr" where
  "rstrip [] = []"
| "rstrip (c # cs) =
     (case rstrip cs of
        [] \<Rightarrow> (if isspace c then [] else [c])
      | r # rs \<Rightarrow> c # r # rs)"

definition strip :: "pystr \<Rightarrow> pystr" where
  "strip s = rstrip (lstrip s)"

text \<open>
  \<open>s.split()\<close> without arguments: the maximal runs of non-whitespace characters, in
  order.  The first argument is the word being read.
\<close>

fun split_aux :: "pystr \<Rightarrow> pystr \<Rightarrow> pystr list" where
  "split_aux w [] = (if w = [] then [] else [w])"
| "split_aux w (c # cs) =
     (if isspace c then (if w = [] then split_aux [] cs else w # split_aux [] cs)
      else split_aux (w @ [c]) cs)"

definition split :: "pystr \<Rightarrow> pystr list" where
  "split s = split_aux [] s"

text \<open>\<open>' '.join(ws)\<close>.\<close>

fun join :: "pystr list \<Rightarrow> pystr" where
  "join [] = []"
| "join [w] = w"
| "join (w # v # ws) = w @ 32 # join (v # ws)"

text \<open>
  \<open>xs[a:b]\<close> for \<open>0 \<le> a \<le> b\<close>: Python clamps both ends to the length, as \<open>take\<close> and
  \<open>drop\<close> do.
\<close>

definition slice :: "'a list \<Rightarrow> nat \<Rightarrow> nat \<Rightarrow> 'a list" where
  "slice xs a b = take (b - a) (drop a xs)"

text \<open>
  \<open>s[-k:]\<close> for \<open>k \<ge> 0\<close>: the last \<open>k\<close> characters, all of \<open>s\<close> when it is shorter, and
  all of \<open>s\<close> when \<open>k = 0\<close> (then the slice is \<open>s[0:]\<close>).
\<close>

definition last_chars :: "nat \<Rightarrow> 'a list \<Rightarrow> 'a list" where
  "last_chars k s = (if k = 0 then s else drop (length s - k) s)"

text \<open>\<open>x in s\<close> on strings: \<open>x\<close> occurs in \<open>s\<close> as a contiguous block.\<close>

fun contains :: "'a list \<Rightarrow> 'a list \<Rightarrow> bool" where
  "contains [] x = (x = [])"
| "contains (c # cs) x = (take (length x) (c # cs) = x \<or> contains cs x)"

text \<open>
  \<open>str.lower()\<close> follows the case tables of Unicode, which are not part of the program.
  The functions below take the lowercasing function as the parameter \<open>lw\<close>; the function
  \<open>ascii_lower\<close> is \<open>str.lower()\<close> on strings whose cased letters are all ASCII.
\<close>

definition ascii_lower :: "pystr \<Rightarrow> pystr" where
  "ascii_lower s = map (\<lambda>c. if 65 \<le> c \<and> c \<le> 90 then c + 32 else c) s"

section \<open>Punctuation normalizer\<close>

text \<open>The character class \<open>[.,!?;:\<dots>]\<close> of the two rewrite rules: the six ASCII marks,
  the Arabic comma and the Arabic semicolon.\<close>

definition punct :: "pychar \<Rightarrow> bool" where
  "punct c = (c = 46 \<or> c = 44 \<or> c = 33 \<or> c = 63 \<or> c = 59 \<or> c = 58 \<or> c = 1548 \<or> c = 1563)"

text \<open>\<open>re.sub(r'\s+', ' ', s)\<close>: each maximal run of whitespace becomes one space.\<close>

function collapse_ws :: "pystr \<Rightarrow> pystr" where
  "collapse_ws [] = []"
| "collapse_ws (c # cs) =
     (if isspace c then 32 # collapse_ws (dropWhile isspace cs) else c # collapse_ws cs)"
  by pat_completeness auto
termination
  by (relation "measure length") (auto simp: length_dropWhile_le less_Suc_eq_le)

text \<open>
  \<open>re.sub(r'\s+([.,!?;:\<dots>])', r'\1', s)\<close>.  The greedy \<open>\s+\<close> takes the whole
  whitespace run from the current position; no punctuation mark is whitespace, so a
  shorter run never matches.  A match is replaced by its mark and the scan goes on after
  the mark; without a match the character is copied and the scan moves one position.
\<close>

function fix_punct :: "pystr \<Rightarrow> pystr" where
  "fix_punct [] = []"
| "fix_punct (c # cs) =
     (if isspace c then
        (case dropWhile isspace cs of
           [] \<Rightarrow> c # fix_punct cs
         | p # r \<Rightarrow> if punct p then p # fix_punct r else c # fix_punct cs)
      else c # fix_punct cs)"
  by pat_completeness auto
termination
  apply (relation "measure length")
     apply simp_all
  subgoal for c cs p r
    using length_dropWhile_le [of isspace cs] by simp
  done

text \<open>
  \<open>re.sub(r'([.,!?;:\<dots>])([^\s])', r'\1 \2', s)\<close>.  A match takes two characters, so
  the character after a mark is not itself tried as the mark of a next match.
\<close>

fun add_space :: "pystr \<Rightarrow> pystr" where
  "add_space (p # c # cs) =
     (if punct p \<and> \<not> isspace c then p # 32 # c # add_space cs
      else p # add_space (c # cs))"
| "add_space s = s"

definition PunctuationNormalizer :: "pystr \<Rightarrow> pystr" where
  "PunctuationNormalizer s = add_space (fix_punct (strip (collapse_ws s)))"

section \<open>Phrase deduplicator\<close>

text \<open>
  The \<open>for phrase_len in range(5, 1, -1)\<close> loop at position \<open>i\<close>, over the phrase lengths
  still to try: the first length whose two joined slices are equal, if any (the
  \<open>break\<close>).
\<close>

fun find_repetition :: "pystr list \<Rightarrow> nat \<Rightarrow> nat list \<Rightarrow> nat option" where
  "find_repetition words i [] = None"
| "find_repetition words i (phrase_len # rest) =
     (if i + phrase_len * 2 \<le> length words
         \<and> join (slice words i (i + phrase_len))
             = join (slice words (i + phrase_len) (i + phrase_len * 2))
      then Some phrase_len
      else find_repetition words i rest)"

text \<open>The \<open>while i < len(words)\<close> loop, with its variables \<open>i\<close> and \<open>cleaned_words\<close>.\<close>

function dedup_loop :: "pystr list \<Rightarrow> nat \<Rightarrow> pystr list \<Rightarrow> pystr list" where
  "dedup_loop words i cleaned_words =
     (if i < length words then
        (case find_repetition words i [5, 4, 3, 2] of
           Some phrase_len \<Rightarrow>
             dedup_loop words (i + phrase_len * 2)
               (cleaned_words @ slice words i (i + phrase_len))
         | None \<Rightarrow> dedup_loop words (i + 1) (cleaned_words @ [words ! i]))
      else cleaned_words)"
  by pat_completeness auto
termination
  apply (relation "measure (\<lambda>(words, i, cleaned_words). length words - i)")
    apply simp_all
  subgoal for words i phrase_len
    by (auto split: if_splits)
  done

definition PhraseDeduplicator :: "pystr \<Rightarrow> pystr" where
  "PhraseDeduplicator full_text = join (dedup_loop (split full_text) 0 [])"

text \<open>
  The deduplicator as the specification words it: at position \<open>i\<close> the phrase lengths
  5, 4, 3, 2 are tried in that order, a length \<open>L\<close> matches when at least \<open>2L\<close> words
  remain and the word slices \<open>[i, i+L)\<close> and \<open>[i+L, i+2L)\<close> are equal, the first match
  emits the first slice and advances by \<open>2L\<close>, and without a match the word at \<open>i\<close> is
  emitted and the position advances by one.
\<close>

definition phrase_repeats :: "pystr list \<Rightarrow> nat \<Rightarrow> nat \<Rightarrow> bool" where
  "phrase_repeats words i L =
     (i + 2 * L \<le> length words \<and> slice words i (i + L) = slice words (i + L) (i + 2 * L))"

function scan_spec :: "pystr list \<Rightarrow> nat \<Rightarrow> pystr list" where
  "scan_spec words i =
     (if length words \<le> i then []
      else (case List.find (phrase_repeats words i) [5, 4, 3, 2] of
              Some L \<Rightarrow> slice words i (i + L) @ scan_spec words (i + 2 * L)
            | None \<Rightarrow> words ! i # scan_spec words (i + 1)))"
  by pat_completeness auto
termination
  apply (relation "measure (\<lambda>(words, i). length words - i)")
    apply simp_all
  subgoal for words i L
    by (auto split: if_splits)
  done

section \<open>Segment processing\<close>

text \<open>
  A segment of the recognizer: its text and its two timestamps.  The timestamps are
  floats that the program only copies, so their type is left open.  The entries of
  \<open>segments_list\<close> have the same three fields.
\<close>

record 't segment =
  seg_text :: pystr
  seg_start :: 't
  seg_end :: 't

text \<open>The local variables of \<open>transcribe_audio\<close> that the segment loop updates.\<close>

record 't state =
  full_text :: pystr
  segments_list :: "'t segment list"
  segment_count :: nat
  last_segment_text :: pystr
  repetition_count :: nat

definition initial_state :: "'t state" where
  "initial_state = \<lparr>full_text = [], segments_list = [], segment_count = 0,
     last_segment_text = [], repetition_count = 0\<rparr>"

datatype error = IndexError | ZeroDivisionError

text \<open>
  What the loop body did with a segment: one of the two quality \<open>continue\<close>s, the
  \<open>continue\<close> after "Skipping repetitive segment", the \<open>continue\<close> after "Skipping exact
  repetition", or the append at the end of the body.
\<close>

datatype outcome = Quality_rejected | Near_duplicate | Exact_duplicate | Accepted

text \<open>
  \<open>len(last_words & current_words) / len(last_words | current_words)\<close>.  The quotient
  of the two integers is taken exactly here.  Python rounds it to the nearest double and
  compares it with the double nearest to 0.7, which gives the same truth value as the
  exact comparison with 7/10 whenever the union has fewer than \<open>2^52\<close> words.
\<close>

definition similarity :: "pystr set \<Rightarrow> pystr set \<Rightarrow> error + rat" where
  "similarity last_words current_words =
     (if card (last_words \<union> current_words) = 0 then Inl ZeroDivisionError
      else Inr (of_nat (card (last_words \<inter> current_words))
                / of_nat (card (last_words \<union> current_words))))"

text \<open>The block under \<open>if last_segment_text:\<close>; the result tells whether it skips the
  segment.\<close>

definition near_duplicate :: "(pystr \<Rightarrow> pystr) \<Rightarrow> pystr \<Rightarrow> pystr \<Rightarrow> error + bool" where
  "near_duplicate lw last_text segment_text =
     (if last_text \<noteq> [] then
        (let last_words = set (split (lw last_text));
             current_words = set (split (lw segment_text))
         in if last_words \<noteq> {} \<and> current_words \<noteq> {} then
              (case similarity last_words current_words of
                 Inl e \<Rightarrow> Inl e
               | Inr s \<Rightarrow> Inr (s > 7 / 10))
            else Inr False)
      else Inr False)"

text \<open>\<open>segment_text in full_text[-len(segment_text)*3:]\<close>.\<close>

definition exact_repetition :: "pystr \<Rightarrow> pystr \<Rightarrow> bool" where
  "exact_repetition text segment_text =
     contains (last_chars (length segment_text * 3) text) segment_text"

text \<open>Membership in the string of six marks before which no space is put: full stop,
  Arabic comma, comma, exclamation mark, question mark, Arabic semicolon.\<close>

definition leading_mark :: "pychar \<Rightarrow> bool" where
  "leading_mark c = (c = 46 \<or> c = 1548 \<or> c = 44 \<or> c = 33 \<or> c = 63 \<or> c = 1563)"

text \<open>
  The two statements that extend \<open>full_text\<close>.  The \<open>and\<close> does not read
  \<open>segment_text[0]\<close> when \<open>full_text\<close> is empty; otherwise an empty \<open>segment_text\<close>
  raises.
\<close>

definition append_text :: "pystr \<Rightarrow> pystr \<Rightarrow> error + pystr" where
  "append_text text segment_text =
     (if text = [] then Inr (text @ segment_text)
      else (case segment_text of
              [] \<Rightarrow> Inl IndexError
            | c # _ \<Rightarrow>
                Inr ((if \<not> leading_mark c then text @ [32] else text) @ segment_text)))"

text \<open>One pass through the body of \<open>for segment in segments\<close>.\<close>

definition process_segment ::
  "(pystr \<Rightarrow> pystr) \<Rightarrow> 't state \<Rightarrow> 't segment \<Rightarrow> error + (outcome \<times> 't state)" where
  "process_segment lw st segment =
     (let segment_text = strip (seg_text segment) in
      if segment_text = [] \<or> length segment_text < 2 then Inr (Quality_rejected, st)
      else if card (set segment_text) < 3 then Inr (Quality_rejected, st)
      else
        (case near_duplicate lw (last_segment_text st) segment_text of
           Inl e \<Rightarrow> Inl e
         | Inr True \<Rightarrow>
             Inr (Near_duplicate, st\<lparr>repetition_count := repetition_count st + 1\<rparr>)
         | Inr False \<Rightarrow>
             if exact_repetition (full_text st) segment_text
             then Inr (Exact_duplicate, st\<lparr>repetition_count := repetition_count st + 1\<rparr>)
             else
               (case append_text (full_text st) segment_text of
                  Inl e \<Rightarrow> Inl e
                | Inr text \<Rightarrow>
                    Inr (Accepted,
                      st\<lparr>full_text := text,
                         segments_list := segments_list st @
                           [\<lparr>seg_text = segment_text, seg_start = seg_start segment,
                             seg_end = seg_end segment\<rparr>],
                         segment_count := segment_count st + 1,
                         last_segment_text := segment_text\<rparr>))))"

text \<open>The whole loop; the outcomes are collected in the order of the segments.\<close>

fun run_segments ::
  "(pystr \<Rightarrow> pystr) \<Rightarrow> 't state \<Rightarrow> 't segment list \<Rightarrow> error + (outcome list \<times> 't state)" where
  "run_segments lw st [] = Inr ([], st)"
| "run_segments lw st (segment # rest) =
     (case process_segment lw st segment of
        Inl e \<Rightarrow> Inl e
      | Inr (oc, st') \<Rightarrow>
          (case run_segments lw st' rest of
             Inl e \<Rightarrow> Inl e
           | Inr (ocs, st'') \<Rightarrow> Inr (oc # ocs, st'')))"

section \<open>The result\<close>

record 't transcript_result =
  transcript :: pystr
  wordCount :: nat
  characterCount :: nat
  language :: pystr
  segments :: "'t segment list"

text \<open>\<open>Success\<close> is the dictionary with \<open>"success": True\<close>.  \<open>Failure\<close> is the one that
  the \<open>except\<close> clause builds, with \<open>"success": False\<close> and the \<open>"error"\<close> text.\<close>

datatype 't result = Success "'t transcript_result" | Failure error

text \<open>\<open>transcribe_audio\<close> from the segment loop to the \<open>return\<close>, for the segments and
  the detected language that the recognizer delivered.\<close>

definition transcribe_audio ::
  "(pystr \<Rightarrow> pystr) \<Rightarrow> pystr \<Rightarrow> 't segment list \<Rightarrow> 't result" where
  "transcribe_audio lw detected_language segs =
     (case run_segments lw initial_state segs of
        Inl e \<Rightarrow> Failure e
      | Inr (ocs, st) \<Rightarrow>
          (let text = PhraseDeduplicator (PunctuationNormalizer (full_text st))
           in Success \<lparr>transcript = text, wordCount = length (split text),
                characterCount = length text, language = detected_language,
                segments = segments_list st\<rparr>))"

section \<open>The stages as the specification words them\<close>

text \<open>Jaccard similarity: the size of the intersection over the size of the union.\<close>

definition jaccard :: "'a set \<Rightarrow> 'a set \<Rightarrow> rat" where
  "jaccard A B = of_nat (card (A \<inter> B)) / of_nat (card (A \<union> B))"

text \<open>
  The spacing rule of the assembler: one space before the new text unless the running
  text is empty or the new text starts with one of the six marks.
\<close>

definition spaced_append :: "pystr \<Rightarrow> pystr \<Rightarrow> pystr" where
  "spaced_append running t =
     (if running = [] \<or> (t \<noteq> [] \<and> hd t \<in> {46, 1548, 44, 33, 63, 1563})
      then running @ t else running @ [32] @ t)"

text \<open>The concatenation-with-spacing of texts in their order.\<close>

definition spaced_concat :: "pystr list \<Rightarrow> pystr" where
  "spaced_concat ts = foldl spaced_append [] ts"

text \<open>The quality filter: the trimmed text is shorter than 2 characters, or has fewer
  than 3 distinct characters.\<close>

definition quality_rejects :: "pystr \<Rightarrow> bool" where
  "quality_rejects raw = (length (strip raw) < 2 \<or> card (set (strip raw)) < 3)"

text \<open>The state after the append at the end of the loop body.\<close>

definition accept :: "'t state \<Rightarrow> 't segment \<Rightarrow> 't state" where
  "accept st segment =
     st\<lparr>full_text := spaced_append (full_text st) (strip (seg_text segment)),
        segments_list := segments_list st @
          [\<lparr>seg_text = strip (seg_text segment), seg_start = seg_start segment,
            seg_end = seg_end segment\<rparr>],
        segment_count := segment_count st + 1,
        last_segment_text := strip (seg_text segment)\<rparr>"

text \<open>
  The invariant of the segment loop: the running text is the spaced concatenation of the
  accepted texts, the last accepted text is the text of the last accepted segment, and
  the segment counter is the number of accepted segments.
\<close>

definition assembled :: "'t state \<Rightarrow> bool" where
  "assembled st \<longleftrightarrow>
     full_text st = spaced_concat (map seg_text (segments_list st))
     \<and> last_segment_text st = (if segments_list st = [] then [] else seg_text (last (segments_list st)))
     \<and> segment_count st = length (segments_list st)"

text \<open>
  Shapes of strings between the rewrite rules of the normalizer.  In \<open>single_spaces\<close>
  every whitespace character is a space that no whitespace follows; in \<open>inner_spaces\<close>
  it is moreover followed by a character; \<open>starts_clean\<close> excludes a leading whitespace
  character, and \<open>no_space_before_mark\<close> a whitespace character directly before a mark.
\<close>

fun single_spaces :: "pystr \<Rightarrow> bool" where
  "single_spaces [] = True"
| "single_spaces (c # cs) =
     ((isspace c \<longrightarrow> c = 32 \<and> (cs = [] \<or> \<not> isspace (hd cs))) \<and> single_spaces cs)"

fun inner_spaces :: "pystr \<Rightarrow> bool" where
  "inner_spaces [] = True"
| "inner_spaces (c # cs) =
     ((isspace c \<longrightarrow> c = 32 \<and> cs \<noteq> [] \<and> \<not> isspace (hd cs)) \<and> inner_spaces cs)"

definition starts_clean :: "pystr \<Rightarrow> bool" where
  "starts_clean s = (s = [] \<or> \<not> isspace (hd s))"

fun no_space_before_mark :: "pystr \<Rightarrow> bool" where
  "no_space_before_mark [] = True"
| "no_space_before_mark (c # cs) =
     ((isspace c \<longrightarrow> cs = [] \<or> \<not> punct (hd cs)) \<and> no_space_before_mark cs)"

definition tidy :: "pystr \<Rightarrow> bool" where
  "tidy s = (inner_spaces s \<and> starts_clean s)"

section \<open>Evaluation rules\<close>

lemmas string_eval = str_def strip_def lstrip_def isspace_def split_def ascii_lower_def
  last_chars_def leading_mark_def punct_def slice_def

section \<open>The loop body in closed form\<close>

lemma contains_iff_sublist: "contains s x \<longleftrightarrow> sublist x s"
proof (induction s)
  case Nil
  show ?case by simp
next
  case (Cons c cs)
  have "take (length x) (c # cs) = x \<longleftrightarrow> prefix x (c # cs)"
    by (metis append_eq_conv_conj prefix_def take_is_prefix)
  with Cons show ?case
    by (simp add: sublist_Cons_right)
qed

lemma near_duplicate_value:
  "near_duplicate lw last_text t =
     Inr (last_text \<noteq> [] \<and> set (split (lw last_text)) \<noteq> {} \<and> set (split (lw t)) \<noteq> {}
          \<and> jaccard (set (split (lw last_text))) (set (split (lw t))) > 7 / 10)"
  by (simp add: near_duplicate_def similarity_def jaccard_def Let_def)

lemma append_text_value:
  "t \<noteq> [] \<Longrightarrow> append_text text t = Inr (spaced_append text t)"
  by (cases t) (auto simp add: append_text_def spaced_append_def leading_mark_def)

lemma process_segment_value:
  "process_segment lw st segment =
     (let t = strip (seg_text segment) in
      if quality_rejects (seg_text segment) then Inr (Quality_rejected, st)
      else if last_segment_text st \<noteq> [] \<and> set (split (lw (last_segment_text st))) \<noteq> {}
              \<and> set (split (lw t)) \<noteq> {}
              \<and> jaccard (set (split (lw (last_segment_text st)))) (set (split (lw t))) > 7 / 10
      then Inr (Near_duplicate, st\<lparr>repetition_count := repetition_count st + 1\<rparr>)
      else if sublist t (last_chars (length t * 3) (full_text st))
      then Inr (Exact_duplicate, st\<lparr>repetition_count := repetition_count st + 1\<rparr>)
      else Inr (Accepted, accept st segment))"
proof (cases "quality_rejects (seg_text segment)")
  case True
  then show ?thesis
    by (auto simp: process_segment_def quality_rejects_def Let_def)
next
  case False
  then have ne: "strip (seg_text segment) \<noteq> []"
    by (auto simp: quality_rejects_def)
  from False ne show ?thesis
    unfolding process_segment_def Let_def
    by (simp add: quality_rejects_def near_duplicate_value exact_repetition_def
        contains_iff_sublist append_text_value [OF ne] accept_def)
qed

lemma process_segment_total:
  "\<exists>oc st'. process_segment lw st segment = Inr (oc, st')"
  by (simp add: process_segment_value Let_def)

lemma run_segments_total:
  "\<exists>ocs st'. run_segments lw st segs = Inr (ocs, st') \<and> length ocs = length segs"
proof (induction segs arbitrary: st)
  case Nil
  show ?case by simp
next
  case (Cons segment rest)
  obtain oc st1 where 1: "process_segment lw st segment = Inr (oc, st1)"
    using process_segment_total by blast
  obtain ocs st2 where 2: "run_segments lw st1 rest = Inr (ocs, st2)" "length ocs = length rest"
    using Cons.IH by blast
  from 1 2 show ?case by simp
qed

lemma run_segments_append:
  assumes "run_segments lw st xs = Inr (ocs1, st1)"
    and "run_segments lw st1 ys = Inr (ocs2, st2)"
  shows "run_segments lw st (xs @ ys) = Inr (ocs1 @ ocs2, st2)"
  using assms
proof (induction xs arbitrary: st ocs1)
  case Nil
  then show ?case by simp
next
  case (Cons x xs)
  obtain oc st' where 1: "process_segment lw st x = Inr (oc, st')"
    using process_segment_total by blast
  obtain ocs where 2: "run_segments lw st' xs = Inr (ocs, st1)" "ocs1 = oc # ocs"
    using Cons.prems(1) 1 by (auto split: sum.splits prod.splits)
  from Cons.IH [OF 2(1) Cons.prems(2)] 1 2 show ?case by simp
qed

lemma assembled_initial: "assembled initial_state"
  by (simp add: assembled_def initial_state_def spaced_concat_def)

lemma process_segment_cases:
  assumes "process_segment lw st segment = Inr (oc, st')"
  obtains (quality) "oc = Quality_rejected" "st' = st"
  | (repeated) "oc = Near_duplicate \<or> oc = Exact_duplicate"
      "st' = st\<lparr>repetition_count := repetition_count st + 1\<rparr>"
  | (accepted) "oc = Accepted" "st' = accept st segment"
  using assms by (auto simp: process_segment_value Let_def split: if_splits)

lemma assembled_accept: "assembled st \<Longrightarrow> assembled (accept st segment)"
  by (simp add: assembled_def accept_def spaced_concat_def)

lemma process_segment_assembled:
  assumes "process_segment lw st segment = Inr (oc, st')" "assembled st"
  shows "assembled st'"
  using assms(1)
proof (cases rule: process_segment_cases)
  case quality
  with assms(2) show ?thesis by simp
next
  case repeated
  with assms(2) show ?thesis by (simp add: assembled_def)
next
  case accepted
  with assms(2) show ?thesis by (simp add: assembled_accept)
qed

lemma process_segment_prefix:
  assumes "process_segment lw st segment = Inr (oc, st')"
  shows "prefix (segments_list st) (segments_list st')"
  using assms by (cases rule: process_segment_cases) (simp_all add: accept_def)

lemma run_segments_assembled:
  "run_segments lw st segs = Inr (ocs, st') \<Longrightarrow> assembled st \<Longrightarrow> assembled st'"
proof (induction segs arbitrary: st ocs)
  case Nil
  then show ?case by simp
next
  case (Cons x xs)
  obtain oc st1 where 1: "process_segment lw st x = Inr (oc, st1)"
    using process_segment_total by blast
  obtain ocs' where 2: "run_segments lw st1 xs = Inr (ocs', st')"
    using Cons.prems(1) 1 by (auto split: sum.splits prod.splits)
  show ?case
    using Cons.IH [OF 2] process_segment_assembled [OF 1 Cons.prems(2)] .
qed

lemma run_segments_prefix:
  "run_segments lw st segs = Inr (ocs, st') \<Longrightarrow> prefix (segments_list st) (segments_list st')"
proof (induction segs arbitrary: st ocs)
  case Nil
  then show ?case by simp
next
  case (Cons x xs)
  obtain oc st1 where 1: "process_segment lw st x = Inr (oc, st1)"
    using process_segment_total by blast
  obtain ocs' where 2: "run_segments lw st1 xs = Inr (ocs', st')"
    using Cons.prems(1) 1 by (auto split: sum.splits prod.splits)
  show ?case
    using Cons.IH [OF 2] process_segment_prefix [OF 1] by (rule prefix_order.trans [rotated])
qed

section \<open>Runs and the result\<close>

lemma strip_aaaa: "strip (str ''aaaa'') = str ''aaaa''"
  by (simp add: string_eval)

lemma quality_rejects_aaaa: "quality_rejects (str ''aaaa'')"
  by (simp add: quality_rejects_def strip_aaaa) (simp add: str_def)

lemma normalize_empty: "PunctuationNormalizer [] = []"
  by (simp add: PunctuationNormalizer_def strip_def lstrip_def)

lemma dedup_empty: "PhraseDeduplicator [] = []"
  by (simp add: PhraseDeduplicator_def split_def)

lemma transcribe_audio_value:
  assumes "run_segments lw initial_state segs = Inr (ocs, st)"
  shows "transcribe_audio lw lang segs =
     Success \<lparr>transcript = PhraseDeduplicator (PunctuationNormalizer (full_text st)),
       wordCount = length (split (PhraseDeduplicator (PunctuationNormalizer (full_text st)))),
       characterCount = length (PhraseDeduplicator (PunctuationNormalizer (full_text st))),
       language = lang, segments = segments_list st\<rparr>"
  using assms by (simp add: transcribe_audio_def Let_def)

lemma run_segments_none_accepted:
  "run_segments lw st segs = Inr (ocs, st') \<Longrightarrow> Accepted \<notin> set ocs
     \<Longrightarrow> full_text st' = full_text st \<and> segments_list st' = segments_list st"
proof (induction segs arbitrary: st ocs)
  case Nil
  then show ?case by simp
next
  case (Cons x xs)
  obtain oc st1 where 1: "process_segment lw st x = Inr (oc, st1)"
    using process_segment_total by blast
  obtain ocs' where 2: "run_segments lw st1 xs = Inr (ocs', st')" "ocs = oc # ocs'"
    using Cons.prems(1) 1 by (auto split: sum.splits prod.splits)
  from 2(2) Cons.prems(2) have 3: "oc \<noteq> Accepted" "Accepted \<notin> set ocs'"
    by auto
  from 1 3(1) have "full_text st1 = full_text st \<and> segments_list st1 = segments_list st"
    by (cases rule: process_segment_cases) auto
  with Cons.IH [OF 2(1) 3(2)] show ?case by simp
qed

lemma run_segments_counters:
  "run_segments lw st segs = Inr (ocs, st') \<Longrightarrow>
     repetition_count st' = repetition_count st
        + length (filter (\<lambda>oc. oc = Near_duplicate \<or> oc = Exact_duplicate) ocs)
     \<and> segment_count st' = segment_count st + length (filter (\<lambda>oc. oc = Accepted) ocs)"
proof (induction segs arbitrary: st ocs)
  case Nil
  then show ?case by simp
next
  case (Cons x xs)
  obtain oc st1 where 1: "process_segment lw st x = Inr (oc, st1)"
    using process_segment_total by blast
  obtain ocs' where 2: "run_segments lw st1 xs = Inr (ocs', st')" "ocs = oc # ocs'"
    using Cons.prems(1) 1 by (auto split: sum.splits prod.splits)
  from 1 have "repetition_count st1 = repetition_count st
        + length (filter (\<lambda>oc. oc = Near_duplicate \<or> oc = Exact_duplicate) [oc])
     \<and> segment_count st1 = segment_count st + length (filter (\<lambda>oc. oc = Accepted) [oc])"
    by (cases rule: process_segment_cases) (auto simp: accept_def)
  with Cons.IH [OF 2(1)] 2(2) show ?case by simp
qed

section \<open>The example segments\<close>

lemma strip_hello_world: "strip (str ''hello world'') = str ''hello world''"
  by (simp add: string_eval)
lemma strip_goodbye: "strip (str ''goodbye'') = str ''goodbye''"
  by (simp add: string_eval)
lemma quality_hello_world: "\<not> quality_rejects (str ''hello world'')"
  unfolding quality_rejects_def strip_hello_world by (simp add: str_def card_insert_if)
lemma quality_goodbye: "\<not> quality_rejects (str ''goodbye'')"
  unfolding quality_rejects_def strip_goodbye by (simp add: str_def card_insert_if)
lemma words_hello_world: "split (ascii_lower (str ''hello world'')) = [str ''hello'', str ''world'']"
  by (simp add: string_eval)
lemma words_goodbye: "split (ascii_lower (str ''goodbye'')) = [str ''goodbye'']"
  by (simp add: string_eval)
lemma jaccard_same: "jaccard (set [str ''hello'', str ''world'']) (set [str ''hello'', str ''world'']) = 1"
  by (simp add: jaccard_def str_def card_insert_if)
lemma jaccard_disjoint: "jaccard (set [str ''hello'', str ''world'']) (set [str ''goodbye'']) = 0"
  by (simp add: jaccard_def str_def card_insert_if)


lemma goodbye_not_repeated: "\<not> sublist (str ''goodbye'') (last_chars (length (str ''goodbye'') * 3) (str ''hello world''))"
  unfolding contains_iff_sublist [symmetric] by (simp add: str_def last_chars_def)

lemma hello_world_nonempty: "str ''hello world'' \<noteq> []"
  by (simp add: str_def)

lemma append_goodbye: "spaced_append (str ''hello world'') (str ''goodbye'') = str ''hello world goodbye''"
  by (simp add: spaced_append_def str_def)

lemma step_first: "process_segment ascii_lower initial_state \<lparr>seg_text = str ''hello world'', seg_start = a, seg_end = b\<rparr>
  = Inr (Accepted, \<lparr>full_text = str ''hello world'',
          segments_list = [\<lparr>seg_text = str ''hello world'', seg_start = a, seg_end = b\<rparr>],
          segment_count = 1, last_segment_text = str ''hello world'', repetition_count = 0\<rparr>)"
  by (simp add: process_segment_value quality_hello_world strip_hello_world hello_world_nonempty initial_state_def accept_def
      last_chars_def spaced_append_def Let_def)

lemma step_second: "process_segment ascii_lower \<lparr>full_text = str ''hello world'',
          segments_list = [\<lparr>seg_text = str ''hello world'', seg_start = a, seg_end = b\<rparr>],
          segment_count = 1, last_segment_text = str ''hello world'', repetition_count = 0\<rparr>
     \<lparr>seg_text = str ''hello world'', seg_start = c, seg_end = d\<rparr>
  = Inr (Near_duplicate, \<lparr>full_text = str ''hello world'',
          segments_list = [\<lparr>seg_text = str ''hello world'', seg_start = a, seg_end = b\<rparr>],
          segment_count = 1, last_segment_text = str ''hello world'', repetition_count = 1\<rparr>)"
  by (simp add: process_segment_value quality_hello_world strip_hello_world hello_world_nonempty words_hello_world jaccard_same Let_def del: list.set)

lemma step_third: "process_segment ascii_lower \<lparr>full_text = str ''hello world'',
          segments_list = [\<lparr>seg_text = str ''hello world'', seg_start = a, seg_end = b\<rparr>],
          segment_count = 1, last_segment_text = str ''hello world'', repetition_count = 1\<rparr>
     \<lparr>seg_text = str ''goodbye'', seg_start = e, seg_end = f\<rparr>
  = Inr (Accepted, \<lparr>full_text = str ''hello world goodbye'',
          segments_list = [\<lparr>seg_text = str ''hello world'', seg_start = a, seg_end = b\<rparr>,
             \<lparr>seg_text = str ''goodbye'', seg_start = e, seg_end = f\<rparr>],
          segment_count = 2, last_segment_text = str ''goodbye'', repetition_count = 1\<rparr>)"
  by (simp add: process_segment_value quality_goodbye strip_goodbye hello_world_nonempty words_hello_world words_goodbye jaccard_disjoint goodbye_not_repeated append_goodbye accept_def
      Let_def del: list.set)

lemma normalize_hello: "PunctuationNormalizer (str ''hello world goodbye'') = str ''hello world goodbye''"
  by (simp add: PunctuationNormalizer_def string_eval)

lemma dedup_hello: "PhraseDeduplicator (str ''hello world goodbye'') = str ''hello world goodbye''"
  by (simp add: PhraseDeduplicator_def string_eval)

lemma words_hello_count: "length (split (str ''hello world goodbye'')) = 3"
  by (simp add: string_eval)

lemma length_hello: "length (str ''hello world goodbye'') = 19"
  by (simp add: str_def)

lemma run_hello: "run_segments ascii_lower initial_state
     [\<lparr>seg_text = str ''hello world'', seg_start = a, seg_end = b\<rparr>,
      \<lparr>seg_text = str ''hello world'', seg_start = c, seg_end = d\<rparr>,
      \<lparr>seg_text = str ''goodbye'', seg_start = e, seg_end = f\<rparr>]
    = Inr ([Accepted, Near_duplicate, Accepted],
        \<lparr>full_text = str ''hello world goodbye'',
          segments_list = [\<lparr>seg_text = str ''hello world'', seg_start = a, seg_end = b\<rparr>,
             \<lparr>seg_text = str ''goodbye'', seg_start = e, seg_end = f\<rparr>],
          segment_count = 2, last_segment_text = str ''goodbye'', repetition_count = 1\<rparr>)"
  by (simp only: run_segments.simps step_first step_second step_third sum.case prod.case)

lemma cat_strip:
  "strip (str ''the cat sat the cat sat on the mat'') = str ''the cat sat the cat sat on the mat''"
  by (simp add: string_eval)

lemma cat_quality: "\<not> quality_rejects (str ''the cat sat the cat sat on the mat'')"
  unfolding quality_rejects_def cat_strip by (simp add: str_def card_insert_if)

lemma cat_normalize:
  "PunctuationNormalizer (str ''the cat sat the cat sat on the mat'')
     = str ''the cat sat the cat sat on the mat''"
  by (simp add: PunctuationNormalizer_def string_eval)

lemma cat_run:
  "run_segments ascii_lower initial_state
     [\<lparr>seg_text = str ''the cat sat the cat sat on the mat'', seg_start = a, seg_end = b\<rparr>]
   = Inr ([Accepted],
       \<lparr>full_text = str ''the cat sat the cat sat on the mat'',
        segments_list =
          [\<lparr>seg_text = str ''the cat sat the cat sat on the mat'', seg_start = a, seg_end = b\<rparr>],
        segment_count = 1,
        last_segment_text = str ''the cat sat the cat sat on the mat'',
        repetition_count = 0\<rparr>)"
  by (simp add: process_segment_value cat_quality cat_strip initial_state_def accept_def
      last_chars_def spaced_append_def Let_def) (simp add: str_def)

lemma cat_counts:
  "length (split (str ''the cat sat on the mat'')) = 6"
  "length (str ''the cat sat on the mat'') = 22"
  "length (split (str ''the cat sat the cat sat on the mat'')) = 9"
  by (simp_all add: string_eval)

section \<open>Words, joins and the scan\<close>

lemma isspace_32: "isspace 32"
  by (simp add: isspace_def)

lemma split_aux_no_space:
  "\<forall>c\<in>set w. \<not> isspace c \<Longrightarrow> v \<in> set (split_aux w s) \<Longrightarrow> \<forall>c\<in>set v. \<not> isspace c"
proof (induction s arbitrary: w)
  case Nil
  then show ?case by (auto split: if_splits)
next
  case (Cons a s)
  show ?case
  proof (cases "isspace a")
    case True
    with Cons.prems(2) have "v = w \<or> v \<in> set (split_aux [] s)"
      by (auto split: if_splits)
    then show ?thesis
    proof
      assume "v = w"
      with Cons.prems(1) show ?thesis by simp
    next
      assume "v \<in> set (split_aux [] s)"
      with Cons.IH [of "[]"] show ?thesis by simp
    qed
  next
    case False
    with Cons.prems(2) have "v \<in> set (split_aux (w @ [a]) s)"
      by simp
    moreover from False Cons.prems(1) have "\<forall>c\<in>set (w @ [a]). \<not> isspace c"
      by simp
    ultimately show ?thesis
      using Cons.IH [of "w @ [a]"] by blast
  qed
qed

lemma split_no_space: "v \<in> set (split s) \<Longrightarrow> 32 \<notin> set v"
  using split_aux_no_space [of "[]" v s] isspace_32 by (auto simp: split_def)

lemma append_sep_eq:
  "s \<notin> set x \<Longrightarrow> s \<notin> set y \<Longrightarrow> x @ s # r1 = y @ s # r2 \<longleftrightarrow> x = y \<and> r1 = r2"
proof (induction x arbitrary: y)
  case Nil
  then show ?case by (cases y) auto
next
  case (Cons a x)
  then show ?case by (cases y) auto
qed

lemma join_eq_iff:
  "length xs = length ys \<Longrightarrow> \<forall>w\<in>set xs \<union> set ys. 32 \<notin> set w
     \<Longrightarrow> join xs = join ys \<longleftrightarrow> xs = ys"
proof (induction xs ys rule: list_induct2)
  case Nil
  show ?case by simp
next
  case (Cons x xs y ys)
  show ?case
  proof (cases xs)
    case Nil
    with Cons.hyps show ?thesis by simp
  next
    case (Cons x' xs')
    with Cons.hyps obtain y' ys' where ys: "ys = y' # ys'"
      by (cases ys) auto
    from Cons.prems have "32 \<notin> set x" "32 \<notin> set y"
      by auto
    from append_sep_eq [OF this] Cons.IH Cons.prems Cons ys show ?thesis
      by auto
  qed
qed

lemma slice_subset: "set (slice xs a b) \<subseteq> set xs"
proof -
  have "set (take (b - a) (drop a xs)) \<subseteq> set (drop a xs)"
    by (rule set_take_subset)
  also have "\<dots> \<subseteq> set xs"
    by (rule set_drop_subset)
  finally show ?thesis
    by (simp add: slice_def)
qed

lemma join_slices_eq_iff:
  assumes "\<forall>w\<in>set words. 32 \<notin> set w" and "i + L * 2 \<le> length words"
  shows "join (slice words i (i + L)) = join (slice words (i + L) (i + L * 2))
      \<longleftrightarrow> slice words i (i + L) = slice words (i + L) (i + L * 2)"
proof (rule join_eq_iff)
  from assms(2) show "length (slice words i (i + L)) = length (slice words (i + L) (i + L * 2))"
    by (simp add: slice_def)
  show "\<forall>w\<in>set (slice words i (i + L)) \<union> set (slice words (i + L) (i + L * 2)). 32 \<notin> set w"
  proof
    fix w
    assume "w \<in> set (slice words i (i + L)) \<union> set (slice words (i + L) (i + L * 2))"
    with slice_subset [of words i "i + L"] slice_subset [of words "i + L" "i + L * 2"]
    have "w \<in> set words"
      by auto
    with assms(1) show "32 \<notin> set w"
      by blast
  qed
qed

lemma find_repetition_eq:
  assumes "\<forall>w\<in>set words. 32 \<notin> set w"
  shows "find_repetition words i Ls = List.find (phrase_repeats words i) Ls"
proof (induction Ls)
  case Nil
  show ?case by simp
next
  case (Cons L Ls)
  have c: "L * 2 = 2 * L"
    by simp
  show ?case
  proof (cases "i + L * 2 \<le> length words")
    case True
    from join_slices_eq_iff [OF assms True] True Cons show ?thesis
      by (simp add: phrase_repeats_def c)
  next
    case False
    with Cons show ?thesis
      by (simp add: phrase_repeats_def c)
  qed
qed

lemma dedup_loop_eq:
  "\<forall>w\<in>set words. 32 \<notin> set w \<Longrightarrow> dedup_loop words i cleaned = cleaned @ scan_spec words i"
proof (induction words i cleaned rule: dedup_loop.induct)
  case (1 ws i cleaned)
  note fr = find_repetition_eq [OF "1.prems", of i "[5, 4, 3, 2]"]
  show ?case
  proof (cases "i < length ws")
    case False
    have "dedup_loop ws i cleaned = cleaned"
      by (subst dedup_loop.simps) (simp only: False if_False)
    moreover from False have "length ws \<le> i"
      by simp
    then have "scan_spec ws i = []"
      by (subst scan_spec.simps) (simp only: if_True)
    ultimately show ?thesis by (simp only: append_Nil2)
  next
    case True
    show ?thesis
    proof (cases "find_repetition ws i [5, 4, 3, 2]")
      case None
      have "dedup_loop ws i cleaned = dedup_loop ws (i + 1) (cleaned @ [ws ! i])"
        by (subst dedup_loop.simps) (simp only: True None if_True option.case)
      also have "\<dots> = (cleaned @ [ws ! i]) @ scan_spec ws (i + 1)"
        using "1.IH"(1) [OF True None "1.prems"] .
      also have "\<dots> = cleaned @ scan_spec ws i"
      proof -
        from None have "List.find (phrase_repeats ws i) [5, 4, 3, 2] = None"
          by (simp only: fr [symmetric])
        moreover from True have "\<not> length ws \<le> i"
          by simp
        ultimately have "scan_spec ws i = ws ! i # scan_spec ws (i + 1)"
          by (subst scan_spec.simps) (simp only: if_False option.case)
        then show ?thesis by (simp only: append_assoc append_Cons append_Nil)
      qed
      finally show ?thesis .
    next
      case (Some L)
      have c: "i + L * 2 = i + 2 * L"
        by simp
      have "dedup_loop ws i cleaned = dedup_loop ws (i + L * 2) (cleaned @ slice ws i (i + L))"
        by (subst dedup_loop.simps) (simp only: True Some if_True option.case)
      also have "\<dots> = (cleaned @ slice ws i (i + L)) @ scan_spec ws (i + L * 2)"
        using "1.IH"(2) [OF True Some "1.prems"] .
      also have "\<dots> = cleaned @ scan_spec ws i"
      proof -
        from Some have "List.find (phrase_repeats ws i) [5, 4, 3, 2] = Some L"
          by (simp only: fr [symmetric])
        moreover from True have "\<not> length ws \<le> i"
          by simp
        ultimately have "scan_spec ws i = slice ws i (i + L) @ scan_spec ws (i + 2 * L)"
          by (subst scan_spec.simps) (simp only: if_False option.case)
        then show ?thesis by (simp only: c append_assoc)
      qed
      finally show ?thesis .
    qed
  qed
qed

lemma PhraseDeduplicator_spec:
  "PhraseDeduplicator text = join (scan_spec (split text) 0)"
proof -
  have "\<forall>w\<in>set (split text). 32 \<notin> set w"
    using split_no_space by blast
  from dedup_loop_eq [OF this, of 0 "[]"] show ?thesis
    by (simp only: PhraseDeduplicator_def append_Nil)
qed

lemma cat_dedup:
  "PhraseDeduplicator (str ''the cat sat the cat sat on the mat'') = str ''the cat sat on the mat''"
  by (simp add: PhraseDeduplicator_def string_eval)

section \<open>The normalizer on tidy strings\<close>

lemma punct_not_space: "punct c \<Longrightarrow> \<not> isspace c"
  by (auto simp: punct_def isspace_def)

lemma not_punct_32: "\<not> punct 32"
  by (simp add: punct_def)

lemma collapse_ws_starts_clean: "starts_clean s \<Longrightarrow> starts_clean (collapse_ws s)"
  by (cases s) (auto simp: starts_clean_def)

lemma starts_clean_dropWhile: "starts_clean (dropWhile isspace s)"
  unfolding starts_clean_def by (metis hd_dropWhile)

lemma single_spaces_collapse_ws: "single_spaces (collapse_ws s)"
proof (induction s rule: collapse_ws.induct)
  case 1
  show ?case by simp
next
  case (2 c cs)
  show ?case
  proof (cases "isspace c")
    case True
    have "starts_clean (collapse_ws (dropWhile isspace cs))"
      by (rule collapse_ws_starts_clean [OF starts_clean_dropWhile])
    with True 2(1) show ?thesis
      by (simp add: starts_clean_def)
  next
    case False
    with 2(2) show ?thesis by simp
  qed
qed

lemma single_spaces_dropWhile: "single_spaces s \<Longrightarrow> single_spaces (dropWhile isspace s)"
  by (induction s) auto

lemma starts_clean_rstrip: "starts_clean s \<Longrightarrow> starts_clean (rstrip s)"
  by (cases s) (auto simp: starts_clean_def split: list.splits)

lemma inner_spaces_rstrip: "single_spaces s \<Longrightarrow> inner_spaces (rstrip s)"
proof (induction s)
  case Nil
  show ?case by simp
next
  case (Cons c cs)
  then have IH: "inner_spaces (rstrip cs)"
    by simp
  show ?case
  proof (cases "rstrip cs")
    case Nil
    then show ?thesis by simp
  next
    case (Cons r rs)
    then have ne: "cs \<noteq> []"
      by auto
    have "r = hd cs" if "isspace c"
    proof -
      from that Cons.prems ne have "\<not> isspace (hd cs)"
        by simp
      with ne have "rstrip cs = hd cs # rstrip (tl cs)"
        by (cases cs) (simp_all split: list.splits)
      with Cons show ?thesis by simp
    qed
    with Cons IH Cons.prems ne show ?thesis
      by auto
  qed
qed

lemma tidy_strip_collapse: "tidy (strip (collapse_ws s))"
  unfolding tidy_def strip_def lstrip_def
  by (intro conjI inner_spaces_rstrip single_spaces_dropWhile single_spaces_collapse_ws
      starts_clean_rstrip starts_clean_dropWhile)

lemma collapse_ws_fixed: "inner_spaces s \<Longrightarrow> collapse_ws s = s"
proof (induction s)
  case Nil
  show ?case by simp
next
  case (Cons c cs)
  then have IH: "collapse_ws cs = cs"
    by simp
  show ?case
  proof (cases "isspace c")
    case True
    with Cons.prems have "c = 32" "cs \<noteq> []" "\<not> isspace (hd cs)"
      by simp_all
    then have "dropWhile isspace cs = cs"
      by (cases cs) simp_all
    with True IH \<open>c = 32\<close> show ?thesis by simp
  next
    case False
    with IH show ?thesis by simp
  qed
qed

lemma rstrip_fixed: "inner_spaces s \<Longrightarrow> rstrip s = s"
  by (induction s) (auto split: list.splits)

lemma lstrip_fixed: "starts_clean s \<Longrightarrow> lstrip s = s"
  by (cases s) (auto simp: starts_clean_def lstrip_def)

lemma strip_collapse_fixed: "tidy s \<Longrightarrow> strip (collapse_ws s) = s"
  by (simp add: tidy_def collapse_ws_fixed strip_def lstrip_fixed rstrip_fixed)

lemma fix_punct_nonspace: "\<not> isspace c \<Longrightarrow> fix_punct (c # cs) = c # fix_punct cs"
  by simp

lemma fix_punct_space_keep:
  "isspace c \<Longrightarrow> \<not> isspace d \<Longrightarrow> \<not> punct d \<Longrightarrow> fix_punct (c # d # ds) = c # d # fix_punct ds"
  by simp

lemma fix_punct_space_drop:
  "isspace c \<Longrightarrow> punct d \<Longrightarrow> fix_punct (c # d # ds) = d # fix_punct ds"
  by (simp add: punct_not_space)

lemma inner_spaces_cases:
  assumes "inner_spaces s"
  obtains (empty) "s = []"
  | (nonspace) c cs where "s = c # cs" "\<not> isspace c" "inner_spaces cs"
  | (space) d ds where "s = 32 # d # ds" "\<not> isspace d" "inner_spaces ds"
proof (cases s)
  case Nil
  then show ?thesis by (rule empty)
next
  case (Cons c cs)
  show ?thesis
  proof (cases "isspace c")
    case False
    with Cons assms show ?thesis by (auto intro: nonspace)
  next
    case True
    with Cons assms obtain d ds where "cs = d # ds" "c = 32" "\<not> isspace d"
      by (cases cs) auto
    with Cons assms show ?thesis by (auto intro: space)
  qed
qed

lemma fix_punct_tidy_aux:
  "length s \<le> n \<Longrightarrow> inner_spaces s \<Longrightarrow>
     inner_spaces (fix_punct s) \<and> no_space_before_mark (fix_punct s)"
proof (induction n arbitrary: s)
  case 0
  then show ?case by simp
next
  case (Suc n)
  from Suc.prems(2) show ?case
  proof (cases rule: inner_spaces_cases)
    case empty
    then show ?thesis by simp
  next
    case (nonspace c cs)
    with Suc.prems(1) Suc.IH [of cs] show ?thesis
      by simp
  next
    case (space d ds)
    have sp: "isspace 32"
      by (simp add: isspace_def)
    from space Suc.prems(1) have "length ds \<le> n"
      by simp
    from Suc.IH [OF this space(3)]
    have IH: "inner_spaces (fix_punct ds)" "no_space_before_mark (fix_punct ds)"
      by simp_all
    show ?thesis
    proof (cases "punct d")
      case True
      with space sp IH show ?thesis
        by (simp add: fix_punct_space_drop del: fix_punct.simps)
    next
      case False
      with space sp IH show ?thesis
        by (simp add: fix_punct_space_keep del: fix_punct.simps)
    qed
  qed
qed

lemma fix_punct_tidy:
  assumes "tidy s"
  shows "tidy (fix_punct s)" and "no_space_before_mark (fix_punct s)"
proof -
  from assms have i: "inner_spaces s" and c: "starts_clean s"
    by (simp_all add: tidy_def)
  from fix_punct_tidy_aux [OF le_refl i]
  have 1: "inner_spaces (fix_punct s)" and 2: "no_space_before_mark (fix_punct s)"
    by simp_all
  from c have "starts_clean (fix_punct s)"
    by (cases s) (auto simp: starts_clean_def)
  with 1 show "tidy (fix_punct s)"
    by (simp add: tidy_def)
  from 2 show "no_space_before_mark (fix_punct s)" .
qed

lemma add_space_hd: "add_space (c # cs) = c # tl (add_space (c # cs))"
  by (cases cs) auto

lemma add_space_skip:
  "\<not> punct p \<or> xs = [] \<or> isspace (hd xs) \<Longrightarrow> add_space (p # xs) = p # add_space xs"
  by (cases xs) auto

lemma add_space_insert:
  "punct p \<Longrightarrow> \<not> isspace c \<Longrightarrow> add_space (p # c # cs) = p # 32 # c # add_space cs"
  by simp

lemma add_space_tidy:
  "inner_spaces s \<Longrightarrow> inner_spaces (add_space s)"
proof (induction s rule: add_space.induct)
  case (1 p c cs)
  from "1.prems" have pc: "isspace p \<longrightarrow> p = 32 \<and> \<not> isspace c"
    and ccs: "inner_spaces (c # cs)"
    by simp_all
  show ?case
  proof (cases "punct p \<and> \<not> isspace c")
    case True
    from ccs have "inner_spaces cs"
      by simp
    from "1.IH"(1) [OF True this] have "inner_spaces (add_space cs)" .
    moreover from True have "add_space (p # c # cs) = p # 32 # c # add_space cs"
      by simp
    moreover from True have "\<not> isspace p"
      by (simp add: punct_not_space)
    ultimately show ?thesis
      using True by simp
  next
    case False
    obtain r where r: "add_space (c # cs) = c # r"
      using add_space_hd by blast
    from "1.IH"(2) [OF False ccs] r have "inner_spaces (c # r)"
      by simp
    moreover from False have "add_space (p # c # cs) = p # add_space (c # cs)"
      by auto
    ultimately show ?thesis
      using pc r by simp
  qed
qed simp_all

lemma add_space_starts_clean: "starts_clean s \<Longrightarrow> starts_clean (add_space s)"
proof (cases s)
  case Nil
  then show ?thesis by (simp add: starts_clean_def)
next
  case (Cons c cs)
  assume "starts_clean s"
  then have "\<not> isspace c"
    using Cons by (simp add: starts_clean_def)
  moreover obtain r where "add_space (c # cs) = c # r"
    using add_space_hd by blast
  ultimately show ?thesis
    using Cons by (simp add: starts_clean_def)
qed

lemma add_space_fixed:
  "inner_spaces t \<Longrightarrow> no_space_before_mark t \<Longrightarrow> add_space (fix_punct (add_space t)) = add_space t"
proof (induction t rule: add_space.induct)
  case (1 p c cs)
  from "1.prems" have pc: "isspace p \<longrightarrow> p = 32 \<and> \<not> isspace c"
    and ccs: "inner_spaces (c # cs)"
    and pm: "isspace p \<longrightarrow> \<not> punct c"
    and nccs: "no_space_before_mark (c # cs)"
    by simp_all
  show ?case
  proof (cases "punct p \<and> \<not> isspace c")
    case True
    then have p: "punct p" "\<not> isspace p" and c: "\<not> isspace c"
      by (simp_all add: punct_not_space)
    from ccs nccs have "inner_spaces cs" "no_space_before_mark cs"
      by simp_all
    from "1.IH"(1) [OF True this]
    have IH: "add_space (fix_punct (add_space cs)) = add_space cs" .
    have out: "add_space (p # c # cs) = p # 32 # c # add_space cs"
      using True by simp
    show ?thesis
    proof (cases "punct c")
      case True
      have "fix_punct (p # 32 # c # add_space cs) = p # c # fix_punct (add_space cs)"
        using p(2) True
        by (simp add: fix_punct_nonspace fix_punct_space_drop isspace_32 del: fix_punct.simps)
      moreover have "add_space (p # c # fix_punct (add_space cs))
          = p # 32 # c # add_space (fix_punct (add_space cs))"
        using p(1) c by (rule add_space_insert)
      ultimately show ?thesis
        by (simp only: out IH)
    next
      case False
      let ?F = "fix_punct (add_space cs)"
      have "fix_punct (p # 32 # c # add_space cs) = p # 32 # c # ?F"
        using p(2) c False
        by (simp add: fix_punct_nonspace fix_punct_space_keep isspace_32 del: fix_punct.simps)
      moreover have "add_space (p # 32 # c # ?F) = p # add_space (32 # c # ?F)"
        by (rule add_space_skip) (simp add: isspace_32)
      moreover have "add_space (32 # c # ?F) = 32 # add_space (c # ?F)"
        by (rule add_space_skip) (simp add: not_punct_32)
      moreover have "add_space (c # ?F) = c # add_space ?F"
        by (rule add_space_skip) (simp add: False)
      ultimately show ?thesis
        by (simp only: out IH)
    qed
  next
    case False
    let ?Y = "add_space (c # cs)"
    from "1.IH"(2) [OF False ccs nccs] have IH: "add_space (fix_punct ?Y) = ?Y" .
    have out: "add_space (p # c # cs) = p # ?Y"
      using False by auto
    obtain r where r: "?Y = c # r"
      using add_space_hd by blast
    have fp: "fix_punct (p # ?Y) = p # fix_punct ?Y"
    proof (cases "isspace p")
      case False
      then show ?thesis by (rule fix_punct_nonspace)
    next
      case True
      with pc pm have "\<not> isspace c" "\<not> punct c"
        by simp_all
      with True show ?thesis
        by (simp add: r fix_punct_space_keep fix_punct_nonspace del: fix_punct.simps)
    qed
    have "add_space (p # fix_punct ?Y) = p # add_space (fix_punct ?Y)"
    proof (rule add_space_skip, cases "punct p")
      case False
      then show "\<not> punct p \<or> fix_punct ?Y = [] \<or> isspace (hd (fix_punct ?Y))"
        by simp
    next
      case True
      with \<open>\<not> (punct p \<and> \<not> isspace c)\<close> have sc: "isspace c"
        by simp
      with ccs obtain d ds where d: "cs = d # ds" "\<not> isspace d"
        by (cases cs) auto
      with sc nccs have nd: "\<not> punct d"
        by simp
      from sc have "\<not> punct c"
        using punct_not_space by blast
      then have "?Y = c # add_space cs"
        by (intro add_space_skip) simp
      moreover obtain r' where "add_space (d # ds) = d # r'"
        using add_space_hd by blast
      ultimately have "fix_punct ?Y = c # d # fix_punct r'"
        using sc d nd by (simp add: fix_punct_space_keep del: fix_punct.simps add_space.simps)
      then show "\<not> punct p \<or> fix_punct ?Y = [] \<or> isspace (hd (fix_punct ?Y))"
        using sc by simp
    qed
    with fp IH out show ?thesis
      by (simp only:)
  qed
qed simp_all

lemma PunctuationNormalizer_tidy:
  "tidy (PunctuationNormalizer x)"
proof -
  have "tidy (fix_punct (strip (collapse_ws x)))"
    by (rule fix_punct_tidy(1) [OF tidy_strip_collapse])
  then show ?thesis
    by (simp add: PunctuationNormalizer_def tidy_def add_space_tidy add_space_starts_clean)
qed

lemma normalize_example:
  "PunctuationNormalizer (str ''hello , world !'') = str ''hello, world!''"
  by (simp add: PunctuationNormalizer_def string_eval)

section \<open>Repetition detector\<close>

text \<open>
  Claim C1.  For a segment that passed the quality filter (the trimmed text has at least 2
  characters and at least 3 distinct ones), the loop body never raises and its outcome
  is decided in this order: the segment is skipped as a near duplicate exactly when the
  last accepted text is non-empty, the two lowercase token sets are non-empty and their
  Jaccard similarity is greater than 7/10; otherwise it is skipped as an exact duplicate
  exactly when the trimmed text is a contiguous part of the last \<open>3 * len\<close> characters
  of the running text; otherwise it is accepted.  Each segment gets one outcome.
\<close>

theorem repetition_detector_decision:
  assumes "2 \<le> length (strip (seg_text segment))"
    and "3 \<le> card (set (strip (seg_text segment)))"
  shows "\<exists>st'. process_segment lw st segment =
     Inr (let t = strip (seg_text segment);
              A = set (split (lw (last_segment_text st)));
              B = set (split (lw t))
          in if last_segment_text st \<noteq> [] \<and> A \<noteq> {} \<and> B \<noteq> {} \<and> jaccard A B > 7 / 10
             then Near_duplicate
             else if sublist t (last_chars (3 * length t) (full_text st))
             then Exact_duplicate
             else Accepted, st')"
proof -
  from assms have "\<not> quality_rejects (seg_text segment)"
    by (simp add: quality_rejects_def)
  then show ?thesis
    by (simp add: process_segment_value Let_def mult.commute)
qed

theorem repetition_detector_decision_witness:
  "\<exists>st'. process_segment ascii_lower
      \<lparr>full_text = str ''hello world'', segments_list = [], segment_count = 1,
       last_segment_text = str ''hello world'', repetition_count = 0\<rparr>
      \<lparr>seg_text = str '' hello world '', seg_start = (0::nat), seg_end = 1\<rparr>
    = Inr (Near_duplicate, st')"
proof -
  let ?seg = "\<lparr>seg_text = str '' hello world '', seg_start = (0::nat), seg_end = 1\<rparr>"
  let ?st = "\<lparr>full_text = str ''hello world'', segments_list = [], segment_count = 1,
       last_segment_text = str ''hello world'', repetition_count = 0\<rparr> :: nat state"
  have t: "strip (seg_text ?seg) = str ''hello world''"
    by (simp add: string_eval)
  have w: "split (ascii_lower (str ''hello world'')) = [str ''hello'', str ''world'']"
    by (simp add: string_eval)
  have ne: "str ''hello world'' \<noteq> []"
    by (simp add: str_def)
  have h1: "2 \<le> length (strip (seg_text ?seg))"
    unfolding t by (simp add: str_def)
  have h2: "3 \<le> card (set (strip (seg_text ?seg)))"
    unfolding t by (simp add: str_def card_insert_if)
  have j: "jaccard (set [str ''hello'', str ''world'']) (set [str ''hello'', str ''world'']) = 1"
    by (simp add: jaccard_def str_def card_insert_if)
  from repetition_detector_decision [OF h1 h2, of ascii_lower ?st] show ?thesis
    unfolding t by (simp add: w j ne Let_def del: list.set)
qed

section \<open>Assembler invariant\<close>

text \<open>
  Claim C5.  Processing never raises, and at every point of the run (after any prefix
  \<open>xs\<close> of the segments, with \<open>ys\<close> still to come) the running text is the spaced
  concatenation of the texts of the segments accepted so far, in their order; the list
  of accepted segments after the rest of the run extends the list at that point, so
  its length never decreases.
\<close>

theorem pipeline_state_invariant:
  "\<exists>ocs1 st1 ocs2 st2.
     run_segments lw initial_state xs = Inr (ocs1, st1)
     \<and> run_segments lw st1 ys = Inr (ocs2, st2)
     \<and> run_segments lw initial_state (xs @ ys) = Inr (ocs1 @ ocs2, st2)
     \<and> full_text st1 = spaced_concat (map seg_text (segments_list st1))
     \<and> prefix (segments_list st1) (segments_list st2)
     \<and> length (segments_list st1) \<le> length (segments_list st2)"
proof -
  obtain ocs1 st1 where 1: "run_segments lw initial_state xs = Inr (ocs1, st1)"
    using run_segments_total by blast
  obtain ocs2 st2 where 2: "run_segments lw st1 ys = Inr (ocs2, st2)"
    using run_segments_total by blast
  have "assembled st1"
    using run_segments_assembled [OF 1 assembled_initial] .
  then have 3: "full_text st1 = spaced_concat (map seg_text (segments_list st1))"
    by (simp add: assembled_def)
  have 4: "prefix (segments_list st1) (segments_list st2)"
    using run_segments_prefix [OF 2] .
  then have 5: "length (segments_list st1) \<le> length (segments_list st2)"
    by (rule prefix_length_le)
  from 1 2 run_segments_append [OF 1 2] 3 4 5 show ?thesis by blast
qed

section \<open>Quality filter\<close>

text \<open>
  Claim C7.  The quality filter is a total function of the segment text alone: the loop
  body skips the segment, leaving every variable of the loop as it was, exactly when the
  trimmed text has fewer than 2 characters or fewer than 3 distinct characters;
  otherwise the body returns another outcome without raising.  The text "aaaa" is
  skipped from every state, and a run on that segment alone gives the empty result.
\<close>

theorem quality_filter_decision:
  "(if length (strip (seg_text segment)) < 2 \<or> card (set (strip (seg_text segment))) < 3
    then process_segment lw st segment = Inr (Quality_rejected, st)
    else \<exists>oc st'. process_segment lw st segment = Inr (oc, st') \<and> oc \<noteq> Quality_rejected)
   \<and> process_segment lw st \<lparr>seg_text = str ''aaaa'', seg_start = a, seg_end = b\<rparr>
       = Inr (Quality_rejected, st)
   \<and> transcribe_audio lw lang [\<lparr>seg_text = str ''aaaa'', seg_start = a, seg_end = b\<rparr>]
       = Success \<lparr>transcript = [], wordCount = 0, characterCount = 0, language = lang,
           segments = []\<rparr>"
proof -
  let ?aaaa = "\<lparr>seg_text = str ''aaaa'', seg_start = a, seg_end = b\<rparr>"
  have 1: "process_segment lw st' ?aaaa = Inr (Quality_rejected, st')" for st' :: "'a state"
    by (simp add: process_segment_value quality_rejects_aaaa)
  have "run_segments lw initial_state [?aaaa] = Inr ([Quality_rejected], initial_state)"
    by (simp add: 1)
  from transcribe_audio_value [OF this]
  have 2: "transcribe_audio lw lang [?aaaa]
       = Success \<lparr>transcript = [], wordCount = 0, characterCount = 0, language = lang,
           segments = []\<rparr>"
    by (simp add: initial_state_def normalize_empty dedup_empty split_def)
  have 3: "if length (strip (seg_text segment)) < 2 \<or> card (set (strip (seg_text segment))) < 3
    then process_segment lw st segment = Inr (Quality_rejected, st)
    else \<exists>oc st'. process_segment lw st segment = Inr (oc, st') \<and> oc \<noteq> Quality_rejected"
    by (simp add: process_segment_value quality_rejects_def Let_def)
  from 1 2 3 show ?thesis by blast
qed

theorem quality_filter_decision_witness:
  "process_segment ascii_lower (initial_state :: nat state)
      \<lparr>seg_text = str ''a'', seg_start = 0, seg_end = 1\<rparr>
     = Inr (Quality_rejected, initial_state)
   \<and> (\<exists>oc st'. process_segment ascii_lower (initial_state :: nat state)
         \<lparr>seg_text = str ''abc'', seg_start = 0, seg_end = 1\<rparr> = Inr (oc, st')
       \<and> oc \<noteq> Quality_rejected)"
proof -
  have a: "strip (str ''a'') = str ''a''" and abc: "strip (str ''abc'') = str ''abc''"
    by (simp_all add: string_eval)
  have 1: "length (strip (str ''a'')) < 2"
    unfolding a by (simp add: str_def)
  have 2: "\<not> (length (strip (str ''abc'')) < 2 \<or> card (set (strip (str ''abc''))) < 3)"
    unfolding abc by (simp add: str_def card_insert_if)
  from quality_filter_decision [of "\<lparr>seg_text = str ''a'', seg_start = 0, seg_end = 1\<rparr>"
      ascii_lower "initial_state :: nat state"] 1
    quality_filter_decision [of "\<lparr>seg_text = str ''abc'', seg_start = 0, seg_end = 1\<rparr>"
      ascii_lower "initial_state :: nat state"] 2
  show ?thesis by simp
qed

section \<open>Rejected segments\<close>

text \<open>
  Claim C6.  When the loop body skips a segment as a near duplicate or as an exact
  duplicate, the new state is the old one with \<open>repetition_count\<close> increased by one:
  the accepted segments, the running text, the last accepted text and the accepted
  count are unchanged.  After any run from the initial state the last accepted text is
  the text of the last accepted segment (empty when none was accepted), so a candidate
  is never compared with a skipped segment.
\<close>

theorem rejection_changes_only_counter:
  "(process_segment lw st segment = Inr (oc, st') \<and> (oc = Near_duplicate \<or> oc = Exact_duplicate)
      \<longrightarrow> st' = st\<lparr>repetition_count := repetition_count st + 1\<rparr>
          \<and> segments_list st' = segments_list st \<and> full_text st' = full_text st
          \<and> last_segment_text st' = last_segment_text st
          \<and> segment_count st' = segment_count st
          \<and> repetition_count st' = repetition_count st + 1)
   \<and> (run_segments lw initial_state segs = Inr (ocs, st2)
      \<longrightarrow> last_segment_text st2
          = (if segments_list st2 = [] then [] else seg_text (last (segments_list st2))))"
proof -
  have "st' = st\<lparr>repetition_count := repetition_count st + 1\<rparr>"
    if "process_segment lw st segment = Inr (oc, st')" "oc = Near_duplicate \<or> oc = Exact_duplicate"
    using that by (cases rule: process_segment_cases) auto
  moreover have "last_segment_text st2
          = (if segments_list st2 = [] then [] else seg_text (last (segments_list st2)))"
    if "run_segments lw initial_state segs = Inr (ocs, st2)"
    using run_segments_assembled [OF that assembled_initial] by (simp add: assembled_def)
  ultimately show ?thesis by auto
qed

theorem rejection_changes_only_counter_witness:
  "process_segment ascii_lower
      \<lparr>full_text = str ''hello world'',
          segments_list = [\<lparr>seg_text = str ''hello world'', seg_start = 0::nat, seg_end = 1\<rparr>],
          segment_count = 1, last_segment_text = str ''hello world'', repetition_count = 0\<rparr>
     \<lparr>seg_text = str ''hello world'', seg_start = 1, seg_end = 2\<rparr>
  = Inr (Near_duplicate, \<lparr>full_text = str ''hello world'',
          segments_list = [\<lparr>seg_text = str ''hello world'', seg_start = 0, seg_end = 1\<rparr>],
          segment_count = 1, last_segment_text = str ''hello world'', repetition_count = 1\<rparr>)
   \<and> last_segment_text \<lparr>full_text = str ''hello world'',
          segments_list = [\<lparr>seg_text = str ''hello world'', seg_start = 0::nat, seg_end = 1\<rparr>],
          segment_count = 1, last_segment_text = str ''hello world'', repetition_count = 1\<rparr>
     = str ''hello world''"
  using rejection_changes_only_counter [of ascii_lower
      "\<lparr>full_text = str ''hello world'',
          segments_list = [\<lparr>seg_text = str ''hello world'', seg_start = 0::nat, seg_end = 1\<rparr>],
          segment_count = 1, last_segment_text = str ''hello world'', repetition_count = 0\<rparr>"
      "\<lparr>seg_text = str ''hello world'', seg_start = 1, seg_end = 2\<rparr>"
      Near_duplicate
      "\<lparr>full_text = str ''hello world'',
          segments_list = [\<lparr>seg_text = str ''hello world'', seg_start = 0::nat, seg_end = 1\<rparr>],
          segment_count = 1, last_segment_text = str ''hello world'', repetition_count = 1\<rparr>"
      "[\<lparr>seg_text = str ''hello world'', seg_start = 0, seg_end = 1\<rparr>,
        \<lparr>seg_text = str ''hello world'', seg_start = 1, seg_end = 2\<rparr>]"
      "[Accepted, Near_duplicate]"
      "\<lparr>full_text = str ''hello world'',
          segments_list = [\<lparr>seg_text = str ''hello world'', seg_start = 0::nat, seg_end = 1\<rparr>],
          segment_count = 1, last_segment_text = str ''hello world'', repetition_count = 1\<rparr>"]
    step_second [of "0::nat" 1 1 2]
  by simp

section \<open>The hello world example\<close>

text \<open>
  Claim C4.  On the segments "hello world", "hello world", "goodbye" the first and the
  third segment are accepted and the second is skipped as a near duplicate (the Jaccard
  similarity of the token sets is 1); two segments are accepted and the transcript is
  "hello world goodbye".
\<close>

theorem hello_world_goodbye:
  "run_segments ascii_lower initial_state
     [\<lparr>seg_text = str ''hello world'', seg_start = a, seg_end = b\<rparr>,
      \<lparr>seg_text = str ''hello world'', seg_start = c, seg_end = d\<rparr>,
      \<lparr>seg_text = str ''goodbye'', seg_start = e, seg_end = f\<rparr>]
    = Inr ([Accepted, Near_duplicate, Accepted],
        \<lparr>full_text = str ''hello world goodbye'',
          segments_list = [\<lparr>seg_text = str ''hello world'', seg_start = a, seg_end = b\<rparr>,
             \<lparr>seg_text = str ''goodbye'', seg_start = e, seg_end = f\<rparr>],
          segment_count = 2, last_segment_text = str ''goodbye'', repetition_count = 1\<rparr>)
   \<and> jaccard (set (split (ascii_lower (str ''hello world''))))
         (set (split (ascii_lower (str ''hello world'')))) = 1
   \<and> transcribe_audio ascii_lower lang
     [\<lparr>seg_text = str ''hello world'', seg_start = a, seg_end = b\<rparr>,
      \<lparr>seg_text = str ''hello world'', seg_start = c, seg_end = d\<rparr>,
      \<lparr>seg_text = str ''goodbye'', seg_start = e, seg_end = f\<rparr>]
    = Success \<lparr>transcript = str ''hello world goodbye'', wordCount = 3,
        characterCount = 19, language = lang,
        segments = [\<lparr>seg_text = str ''hello world'', seg_start = a, seg_end = b\<rparr>,
             \<lparr>seg_text = str ''goodbye'', seg_start = e, seg_end = f\<rparr>]\<rparr>"
proof -
  have j: "jaccard (set (split (ascii_lower (str ''hello world''))))
         (set (split (ascii_lower (str ''hello world'')))) = 1"
    unfolding words_hello_world by (rule jaccard_same)
  have t: "transcribe_audio ascii_lower lang
     [\<lparr>seg_text = str ''hello world'', seg_start = a, seg_end = b\<rparr>,
      \<lparr>seg_text = str ''hello world'', seg_start = c, seg_end = d\<rparr>,
      \<lparr>seg_text = str ''goodbye'', seg_start = e, seg_end = f\<rparr>]
    = Success \<lparr>transcript = str ''hello world goodbye'', wordCount = 3,
        characterCount = 19, language = lang,
        segments = [\<lparr>seg_text = str ''hello world'', seg_start = a, seg_end = b\<rparr>,
             \<lparr>seg_text = str ''goodbye'', seg_start = e, seg_end = f\<rparr>]\<rparr>"
    using transcribe_audio_value [OF run_hello] by (simp add: normalize_hello dedup_hello words_hello_count length_hello)
  show ?thesis
    by (intro conjI run_hello j t)
qed

section \<open>Empty result\<close>

text \<open>
  Claim C8.  With no segments, and with segments of which none is accepted, the result
  is the successful one with the empty transcript, word count 0, character count 0 and
  no segments.
\<close>

theorem empty_result:
  "transcribe_audio lw lang []
     = Success \<lparr>transcript = [], wordCount = 0, characterCount = 0, language = lang,
         segments = []\<rparr>
   \<and> (run_segments lw initial_state segs = Inr (ocs, st) \<and> Accepted \<notin> set ocs
      \<longrightarrow> transcribe_audio lw lang segs
          = Success \<lparr>transcript = [], wordCount = 0, characterCount = 0, language = lang,
              segments = []\<rparr>)"
proof -
  have "transcribe_audio lw lang segs
          = Success \<lparr>transcript = [], wordCount = 0, characterCount = 0, language = lang,
              segments = []\<rparr>"
    if run: "run_segments lw initial_state segs = Inr (ocs, st)" and none: "Accepted \<notin> set ocs"
    for segs ocs st
  proof -
    from run_segments_none_accepted [OF run none]
    have "full_text st = []" "segments_list st = []"
      by (simp_all add: initial_state_def)
    with transcribe_audio_value [OF run, of lang] show ?thesis
      by (simp add: normalize_empty dedup_empty split_def)
  qed
  from this [of "[]" "[]" initial_state] this [of segs ocs st] show ?thesis
    by simp
qed

theorem empty_result_witness:
  "transcribe_audio ascii_lower (str ''en'')
     [\<lparr>seg_text = str ''aaaa'', seg_start = 0::nat, seg_end = 1\<rparr>]
   = Success \<lparr>transcript = [], wordCount = 0, characterCount = 0, language = str ''en'',
        segments = []\<rparr>"
proof -
  have run: "run_segments ascii_lower initial_state
      [\<lparr>seg_text = str ''aaaa'', seg_start = 0::nat, seg_end = 1\<rparr>]
    = Inr ([Quality_rejected], initial_state)"
    by (simp add: process_segment_value quality_rejects_aaaa)
  have none: "Accepted \<notin> set [Quality_rejected]"
    by simp
  from empty_result [of ascii_lower "str ''en''"
      "[\<lparr>seg_text = str ''aaaa'', seg_start = 0::nat, seg_end = 1\<rparr>]" "[Quality_rejected]"
      initial_state] run none
  show ?thesis by blast
qed

section \<open>Rejections and errors\<close>

text \<open>
  Claim C9, as stated, asks that a segment skipped by the quality filter be counted in a
  counter.  The loop has no such counter: a run on the one segment "aaaa" skips it and
  ends in the initial state, with both counters at 0.
\<close>

theorem quality_rejection_not_counted:
  "run_segments ascii_lower initial_state
     [\<lparr>seg_text = str ''aaaa'', seg_start = 0::nat, seg_end = 1\<rparr>]
   = Inr ([Quality_rejected],
       \<lparr>full_text = [], segments_list = [], segment_count = 0, last_segment_text = [],
        repetition_count = 0\<rparr>)"
  by (simp add: process_segment_value quality_rejects_aaaa initial_state_def)

text \<open>
  Claim C9, amended.  For every list of segments the run does not raise and the result
  is the successful one, with no error.  The segments skipped by the repetition detector
  are counted in \<open>repetition_count\<close> and the accepted ones in \<open>segment_count\<close>; the
  segments skipped by the quality filter are the remaining ones and are in no counter.
\<close>

theorem rejections_silent:
  "\<exists>ocs st r.
     run_segments lw initial_state segs = Inr (ocs, st) \<and> length ocs = length segs
     \<and> repetition_count st
         = length (filter (\<lambda>oc. oc = Near_duplicate \<or> oc = Exact_duplicate) ocs)
     \<and> segment_count st = length (filter (\<lambda>oc. oc = Accepted) ocs)
     \<and> transcribe_audio lw lang segs = Success r"
proof -
  obtain ocs st where 1: "run_segments lw initial_state segs = Inr (ocs, st)"
    "length ocs = length segs"
    using run_segments_total by blast
  from run_segments_counters [OF 1(1)] have 2: "repetition_count st
         = length (filter (\<lambda>oc. oc = Near_duplicate \<or> oc = Exact_duplicate) ocs)"
    "segment_count st = length (filter (\<lambda>oc. oc = Accepted) ocs)"
    by (simp_all add: initial_state_def)
  from 1 2 transcribe_audio_value [OF 1(1), of lang] show ?thesis
    by blast
qed

section \<open>Phrase deduplicator scan\<close>

text \<open>
  Claim C2.  On the words of any text the loop of the program computes the scan of the
  specification: phrase lengths 5, 4, 3, 2 in that order at each position, the first
  length with at least \<open>2L\<close> words left and equal word slices emits the slice once and
  advances by \<open>2L\<close>, otherwise one word is emitted.  The program compares the joined
  slices; the words of \<open>split\<close> contain no space, so that is the comparison of the
  slices.  On "the cat sat the cat sat on the mat" the result is "the cat sat on the
  mat".
\<close>

theorem phrase_deduplicator_scan:
  "PhraseDeduplicator text = join (scan_spec (split text) 0)
   \<and> PhraseDeduplicator (str ''the cat sat the cat sat on the mat'')
       = str ''the cat sat on the mat''"
  using PhraseDeduplicator_spec cat_dedup by (rule conjI)

section \<open>Counts of the result\<close>

text \<open>
  Claim C10.  Every run returns the successful result, whose \<open>wordCount\<close> is the number
  of words of its \<open>transcript\<close> and whose \<open>characterCount\<close> is the length of its
  \<open>transcript\<close>, the transcript being the running text after normalization and phrase
  deduplication.  For the one segment "the cat sat the cat sat on the mat" the counts
  are 6 and 22, those of the transcript, while the accepted text has 9 words.
\<close>

theorem counts_follow_transcript:
  "(\<exists>r ocs st. transcribe_audio lw lang segs = Success r
      \<and> run_segments lw initial_state segs = Inr (ocs, st)
      \<and> transcript r = PhraseDeduplicator (PunctuationNormalizer (full_text st))
      \<and> wordCount r = length (split (transcript r))
      \<and> characterCount r = length (transcript r))
   \<and> transcribe_audio ascii_lower lang2
       [\<lparr>seg_text = str ''the cat sat the cat sat on the mat'', seg_start = a, seg_end = b\<rparr>]
     = Success \<lparr>transcript = str ''the cat sat on the mat'', wordCount = 6,
         characterCount = 22, language = lang2,
         segments =
           [\<lparr>seg_text = str ''the cat sat the cat sat on the mat'', seg_start = a,
             seg_end = b\<rparr>]\<rparr>
   \<and> length (split (str ''the cat sat the cat sat on the mat'')) = 9"
proof -
  obtain ocs st where run: "run_segments lw initial_state segs = Inr (ocs, st)"
    using run_segments_total by blast
  from transcribe_audio_value [OF run, of lang] run
  have 1: "\<exists>r ocs st. transcribe_audio lw lang segs = Success r
      \<and> run_segments lw initial_state segs = Inr (ocs, st)
      \<and> transcript r = PhraseDeduplicator (PunctuationNormalizer (full_text st))
      \<and> wordCount r = length (split (transcript r))
      \<and> characterCount r = length (transcript r)"
    by simp
  have 2: "transcribe_audio ascii_lower lang2
       [\<lparr>seg_text = str ''the cat sat the cat sat on the mat'', seg_start = a, seg_end = b\<rparr>]
     = Success \<lparr>transcript = str ''the cat sat on the mat'', wordCount = 6,
         characterCount = 22, language = lang2,
         segments =
           [\<lparr>seg_text = str ''the cat sat the cat sat on the mat'', seg_start = a,
             seg_end = b\<rparr>]\<rparr>"
    using transcribe_audio_value [OF cat_run] by (simp add: cat_normalize cat_dedup cat_counts)
  show ?thesis
    by (intro conjI 1 2 cat_counts(3))
qed

section \<open>Idempotence of the normalizer\<close>

text \<open>
  Claim C3.  The punctuation normalizer (collapse whitespace runs and trim, remove
  whitespace before a mark, put a space after a mark that a non-whitespace character
  follows) is idempotent: applying it to its own result gives that result, for every
  string.
\<close>

theorem normalizer_idempotent:
  "PunctuationNormalizer (PunctuationNormalizer x) = PunctuationNormalizer x"
proof -
  let ?t = "fix_punct (strip (collapse_ws x))"
  have t: "tidy ?t" and m: "no_space_before_mark ?t"
    by (rule fix_punct_tidy [OF tidy_strip_collapse])+
  have "strip (collapse_ws (PunctuationNormalizer x)) = PunctuationNormalizer x"
    by (rule strip_collapse_fixed [OF PunctuationNormalizer_tidy])
  then have "PunctuationNormalizer (PunctuationNormalizer x)
      = add_space (fix_punct (add_space ?t))"
    by (simp add: PunctuationNormalizer_def)
  also from t m have "\<dots> = add_space ?t"
    by (simp add: add_space_fixed tidy_def)
  finally show ?thesis
    by (simp add: PunctuationNormalizer_def)
qed

end
